theory Spec2Isabelle
  imports Main "HOL-Library.Sublist"
begin

section \<open>Values and objects\<close>

text \<open>
  JavaScript values as far as \<^verbatim>\<open>lib/index.js\<close> inspects them. Objects and functions are
  references (\<open>Obj a\<close>, \<open>Fn f\<close>): two values denote the same object exactly when the
  addresses agree. Numbers are integers plus \<open>NaN\<close>.
\<close>

datatype jsval =
    Undefined
  | Null
  | Bool bool
  | Num int
  | NaN
  | Str string
  | Obj nat
  | Fn nat

text \<open>JavaScript's \<^verbatim>\<open>ToBoolean\<close>, used by \<^verbatim>\<open>if (x)\<close>, \<^verbatim>\<open>!x\<close> and \<^verbatim>\<open>a || b\<close>.\<close>

fun truthy :: "jsval \<Rightarrow> bool" where
  "truthy Undefined = False"
| "truthy Null = False"
| "truthy (Bool b) = b"
| "truthy (Num n) = (n \<noteq> 0)"
| "truthy NaN = False"
| "truthy (Str s) = (s \<noteq> [])"
| "truthy (Obj a) = True"
| "truthy (Fn f) = True"

text \<open>\<^verbatim>\<open>'function' == typeof v\<close>.\<close>

fun is_function :: "jsval \<Rightarrow> bool" where
  "is_function (Fn f) = True"
| "is_function v = False"

text \<open>
  An object is the list of its own properties in the order of their creation; the heap
  maps addresses to objects. Properties inherited from a prototype are not in the list.
\<close>

type_synonym obj = "(string \<times> jsval) list"
type_synonym heap = "obj list"

definition obj_at :: "heap \<Rightarrow> nat \<Rightarrow> obj" where
  "obj_at h a = (if a < length h then h ! a else [])"

text \<open>\<^verbatim>\<open>o[k]\<close>: a missing property reads as \<^verbatim>\<open>undefined\<close>.\<close>

definition prop_get :: "obj \<Rightarrow> string \<Rightarrow> jsval" where
  "prop_get ob k = (case map_of ob k of None \<Rightarrow> Undefined | Some v \<Rightarrow> v)"

text \<open>\<^verbatim>\<open>o[k] = v\<close>: an existing property keeps its place, a new one is created last.\<close>

fun assign :: "obj \<Rightarrow> string \<Rightarrow> jsval \<Rightarrow> obj" where
  "assign [] k v = [(k, v)]"
| "assign ((k', v') # ob) k v = (if k' = k then (k, v) # ob else (k', v') # assign ob k v)"

text \<open>
  Array-index names: the decimal numerals, without a leading zero, of the numbers below
  \<open>2\<^sup>3\<^sup>2 - 1\<close>.
\<close>

definition digit_value :: "char \<Rightarrow> nat option" where
  "digit_value c =
     map_of [(CHR ''0'', 0), (CHR ''1'', 1), (CHR ''2'', 2), (CHR ''3'', 3), (CHR ''4'', 4),
             (CHR ''5'', 5), (CHR ''6'', 6), (CHR ''7'', 7), (CHR ''8'', 8), (CHR ''9'', 9)] c"

fun decimal :: "nat \<Rightarrow> string \<Rightarrow> nat option" where
  "decimal n [] = Some n"
| "decimal n (c # cs) =
     (case digit_value c of None \<Rightarrow> None | Some d \<Rightarrow> decimal (10 * n + d) cs)"

definition array_index :: "string \<Rightarrow> nat option" where
  "array_index s =
     (if s = [] \<or> (hd s = CHR ''0'' \<and> s \<noteq> ''0'') then None
      else case decimal 0 s of
             None \<Rightarrow> None
           | Some n \<Rightarrow> if n < 4294967295 then Some n else None)"

text \<open>
  The own properties in the order in which \<^verbatim>\<open>Object.keys\<close> and \<^verbatim>\<open>for-in\<close> go through
  them: those with an array-index name first, by ascending index, then the others in
  the order of their creation.
\<close>

definition own_properties :: "obj \<Rightarrow> obj" where
  "own_properties ob =
     sort_key (\<lambda>(k, v). case array_index k of None \<Rightarrow> 0 | Some n \<Rightarrow> n)
       (filter (\<lambda>(k, v). array_index k \<noteq> None) ob)
     @ filter (\<lambda>(k, v). array_index k = None) ob"

text \<open>\<^verbatim>\<open>Object.keys(o)\<close>.\<close>

definition object_keys :: "obj \<Rightarrow> string list" where
  "object_keys ob = map fst (own_properties ob)"


definition heap_put :: "heap \<Rightarrow> nat \<Rightarrow> obj \<Rightarrow> heap" where
  "heap_put h a ob = (if a < length h then h[a := ob] else h)"

datatype error = Error string | TypeError string

section \<open>Callbacks\<close>

text \<open>
  The functions that end up in listener lists. \<open>Host f\<close> is a function of the embedder;
  the two others are the closures that \<^verbatim>\<open>sub\<close> creates, each with the number of its
  creation, so that two closures over the same function are still two functions:
  \<^item> \<open>Forward i fn prop\<close> is \<^verbatim>\<open>function() { fn(self.get(prop)); }\<close> (lines 87-91);
  \<^item> \<open>Guarded i fn\<close> is
    \<^verbatim>\<open>function() { if (self._internal_set) return; fn.apply(this, arguments); }\<close>
    (lines 98-103).
\<close>

datatype callback =
    Host nat
  | Forward nat callback string
  | Guarded nat callback

type_synonym invocation = "nat \<times> jsval list"

section \<open>The adapter interface\<close>

text \<open>
  Modelled from the spec: \<^verbatim>\<open>lib/adapter.js\<close> is not among the sources. Section 6 gives the
  interface the orchestrator consumes: \<^verbatim>\<open>Adapter(model)\<close> builds an instance with
  \<^verbatim>\<open>get(prop)\<close>, \<^verbatim>\<open>set(prop, value)\<close>, \<^verbatim>\<open>subscribe(prop, cb)\<close>, \<^verbatim>\<open>unsubscribe(prop, cb)\<close>
  and \<^verbatim>\<open>unsubscribeAll()\<close>. An adapter class is a record of these operations over its
  own state \<open>'s\<close>. \<open>a_set\<close> also returns the listeners the adapter calls while it
  writes (its change detection), each with the arguments it passes.
\<close>

record 's adapter_class =
  construct :: "jsval \<Rightarrow> 's"
  a_get :: "'s \<Rightarrow> string \<Rightarrow> jsval"
  a_set :: "'s \<Rightarrow> string \<Rightarrow> jsval \<Rightarrow> 's \<times> (callback \<times> jsval list) list"
  a_subscribe :: "'s \<Rightarrow> string \<Rightarrow> callback \<Rightarrow> 's"
  a_unsubscribe :: "'s \<Rightarrow> string \<Rightarrow> callback \<Rightarrow> 's"
  a_unsubscribeAll :: "'s \<Rightarrow> 's"

section \<open>The DOM\<close>

text \<open>
  What reading \<^verbatim>\<open>el.parentNode\<close> does: it yields a node, yields \<^verbatim>\<open>null\<close>, or throws
  with a message (the IE8 case of \<^verbatim>\<open>inDomTree\<close>).
\<close>

datatype parent_access = HasParent | NoParent | Throws string

text \<open>
  An element (\<^verbatim>\<open>nodeType == 1\<close>) has attributes (name, value) and child nodes; a text node
  (\<^verbatim>\<open>nodeType == 3\<close>) has its data and the outcome of reading its \<^verbatim>\<open>parentNode\<close> when
  it is visited; any other node (comment, fragment) has child nodes only.
\<close>

datatype node =
    Element "(string \<times> string) list" "node list"
  | Text string parent_access
  | Other "node list"

type_synonym path = "nat list"

text \<open>The bindings a traversal instantiates, with the position of the node in the tree.\<close>

datatype binding_event =
    Named string path
  | AttrInterp path string
  | TextInterp path

fun path_of :: "binding_event \<Rightarrow> path" where
  "path_of (Named name p) = p"
| "path_of (AttrInterp p name) = p"
| "path_of (TextInterp p) = p"

section \<open>The orchestrator\<close>

text \<open>
  The fields of a \<^verbatim>\<open>Reactive\<close> instance. \<open>opt_adapter\<close> is \<^verbatim>\<open>opt.adapter\<close>;
  \<open>adapter_class\<close> and \<open>adapter\<close> are the methods and the state of \<^verbatim>\<open>self.adapter\<close>;
  \<open>view\<close> and \<open>bindings\<close> are addresses, since both objects are shared;
  \<open>callbacks\<close> is the emitter's table; \<open>internal_set\<close> is \<^verbatim>\<open>_internal_set\<close> (absent
  reads as false). Three fields record what the instance did: \<open>next_closure\<close> numbers
  the closures created, \<open>calls\<close> lists the host callbacks invoked with their arguments,
  \<open>bound\<close> lists the bindings instantiated.
\<close>

record 's reactive =
  opt_adapter :: "'s adapter_class option"
  model :: jsval
  adapter_class :: "'s adapter_class"
  adapter :: 's
  view :: nat
  bindings :: nat
  el :: "node option"
  internal_set :: bool
  callbacks :: "string \<Rightarrow> callback list"
  next_closure :: nat
  calls :: "invocation list"
  bound :: "binding_event list"

section \<open>The host environment\<close>

text \<open>
  What the orchestrator takes from outside \<^verbatim>\<open>lib/index.js\<close>:
  \<^item> \<open>call f this\<close>: the result of the host function \<open>f\<close> called without arguments and
    with the given \<^verbatim>\<open>this\<close> (host functions are taken to return);
  \<^item> \<open>domify\<close>: the markup parser of \<^verbatim>\<open>render\<close>;
  \<^item> \<open>hasInterpolation\<close>: \<^verbatim>\<open>utils.hasInterpolation\<close>;
  \<^item> \<open>binding_skips name p\<close>: whether the \<^verbatim>\<open>Binding\<close> made for the directive \<open>name\<close> on
    the element at position \<open>p\<close> has \<^verbatim>\<open>skip\<close> set once its \<^verbatim>\<open>bind()\<close> has returned;
  \<^item> \<open>object_prototype\<close>: the names that a plain object \<^verbatim>\<open>{}\<close> inherits in the host
    (\<^verbatim>\<open>constructor\<close>, \<^verbatim>\<open>toString\<close>, ...), all of them truthy;
  \<^item> \<open>Adapter\<close>: the default adapter class of \<^verbatim>\<open>lib/adapter.js\<close>;
  \<^item> \<open>builtin_bindings\<close>: the directives that the plugin \<^verbatim>\<open>lib/bindings\<close> registers.
\<close>

record 's host =
  call :: "nat \<Rightarrow> jsval \<Rightarrow> jsval"
  domify :: "string \<Rightarrow> node"
  hasInterpolation :: "string \<Rightarrow> bool"
  binding_skips :: "string \<Rightarrow> path \<Rightarrow> bool"
  object_prototype :: "string list"
  Adapter :: "'s adapter_class"
  builtin_bindings :: obj

section \<open>Value resolution\<close>

text \<open>\<^verbatim>\<open>Reactive.prototype.get\<close> (lines 133-154).\<close>

definition get :: "'s host \<Rightarrow> heap \<Rightarrow> 's reactive \<Rightarrow> string \<Rightarrow> jsval" where
  "get E h r prop =
     (if prop = ''this'' then model r
      else
        let modelVal = a_get (adapter_class r) (adapter r) prop in
        if modelVal \<noteq> Undefined then modelVal
        else
          let viewVal = prop_get (obj_at h (view r)) prop in
          (case viewVal of
             Fn f \<Rightarrow> call E f (Obj (view r))
           | _ \<Rightarrow> if truthy viewVal then viewVal else Undefined))"

section \<open>Events and subscriptions\<close>

text \<open>
  Calling a listener with arguments: the host functions that get called as a result, in
  order. A host function is recorded, not run: it is taken to return without calling
  back into the orchestrator.
\<close>

fun invoke :: "'s host \<Rightarrow> heap \<Rightarrow> 's reactive \<Rightarrow> callback \<Rightarrow> jsval list \<Rightarrow> invocation list" where
  "invoke E h r (Host f) args = [(f, args)]"
| "invoke E h r (Forward i fn prop) args = invoke E h r fn [get E h r prop]"
| "invoke E h r (Guarded i fn) args = (if internal_set r then [] else invoke E h r fn args)"

text \<open>
  Modelled from the spec: \<^verbatim>\<open>on(event, fn)\<close> of the \<^verbatim>\<open>Emitter\<close> mixin (package \<^verbatim>\<open>emitter\<close>),
  which is not among the sources. Section 6 names \<^verbatim>\<open>on\<close>, \<^verbatim>\<open>off\<close> and \<^verbatim>\<open>emit\<close> for named
  events: \<open>on\<close> adds a listener after those present.
\<close>

definition on :: "'s reactive \<Rightarrow> string \<Rightarrow> callback \<Rightarrow> 's reactive" where
  "on r event fn = r\<lparr>callbacks := (callbacks r)(event := callbacks r event @ [fn])\<rparr>"

text \<open>
  Modelled from the spec: \<^verbatim>\<open>off(event, fn)\<close> of the \<^verbatim>\<open>Emitter\<close> mixin (section 6), which is
  not among the sources: the first listener of the event that is \<open>fn\<close> goes.
\<close>

definition off :: "'s reactive \<Rightarrow> string \<Rightarrow> callback \<Rightarrow> 's reactive" where
  "off r event fn = r\<lparr>callbacks := (callbacks r)(event := remove1 fn (callbacks r event))\<rparr>"

text \<open>
  Modelled from the spec: \<^verbatim>\<open>emit(event, args)\<close> of the \<^verbatim>\<open>Emitter\<close> mixin (section 6), which
  is not among the sources: each listener of the event is called with the arguments, in
  the order of registration.
\<close>

definition emit :: "'s host \<Rightarrow> heap \<Rightarrow> 's reactive \<Rightarrow> string \<Rightarrow> jsval list \<Rightarrow> 's reactive" where
  "emit E h r event args =
     r\<lparr>calls := calls r @ concat (map (\<lambda>fn. invoke E h r fn args) (callbacks r event))\<rparr>"

text \<open>
  Modelled from the spec: \<^verbatim>\<open>removeAllListeners()\<close> of the \<^verbatim>\<open>Emitter\<close> mixin, which is not
  among the sources (section 4.6: "removes all engine-level event listeners").
\<close>

definition removeAllListeners :: "'s reactive \<Rightarrow> 's reactive" where
  "removeAllListeners r = r\<lparr>callbacks := (\<lambda>event. [])\<rparr>"

text \<open>The adapter calls listeners it holds, each with the arguments it chooses.\<close>

definition notify ::
  "'s host \<Rightarrow> heap \<Rightarrow> 's reactive \<Rightarrow> (callback \<times> jsval list) list \<Rightarrow> 's reactive" where
  "notify E h r notes =
     r\<lparr>calls := calls r @ concat (map (\<lambda>(fn, args). invoke E h r fn args) notes)\<rparr>"

text \<open>\<^verbatim>\<open>String.prototype.split('.')\<close>.\<close>

fun split_dot :: "string \<Rightarrow> string list" where
  "split_dot [] = [[]]"
| "split_dot (c # cs) =
     (if c = CHR ''.'' then [] # split_dot cs
      else (case split_dot cs of [] \<Rightarrow> [[c]] | w # ws \<Rightarrow> (c # w) # ws))"


lemma hd_split_dot_no_dot: "CHR ''.'' \<notin> set (hd (split_dot s))"
  by (induction s) (auto split: list.splits)

lemma split_dot_no_dot: "CHR ''.'' \<notin> set s \<Longrightarrow> split_dot s = [s]"
  by (induction s) auto

lemma length_split_dot_hd: "length (split_dot (hd (split_dot s))) = 1"
  by (simp add: split_dot_no_dot hd_split_dot_no_dot)

text \<open>\<^verbatim>\<open>Reactive.prototype.sub\<close> (lines 78-106).\<close>

function sub :: "'s reactive \<Rightarrow> string \<Rightarrow> callback \<Rightarrow> 's reactive" where
  "sub r prop fn =
     (let parts = split_dot prop;
          r1 = (if length parts > 1
                then sub (r\<lparr>next_closure := Suc (next_closure r)\<rparr>) (hd parts)
                       (Forward (next_closure r) fn prop)
                else r);
          r2 = on r1 (''change '' @ prop) fn
      in r2\<lparr>adapter := a_subscribe (adapter_class r2) (adapter r2) prop
                          (Guarded (next_closure r2) fn),
            next_closure := Suc (next_closure r2)\<rparr>)"
  by pat_completeness auto
termination
  by (relation "measure (\<lambda>(r, prop, fn). length (split_dot prop))")
     (auto simp: length_split_dot_hd)

text \<open>\<^verbatim>\<open>Reactive.prototype.unsub\<close> (lines 117-122).\<close>

definition unsub :: "'s reactive \<Rightarrow> string \<Rightarrow> callback \<Rightarrow> 's reactive" where
  "unsub r prop fn =
     (let r1 = off r (''change '' @ prop) fn
      in r1\<lparr>adapter := a_unsubscribe (adapter_class r1) (adapter r1) prop fn\<rparr>)"

text \<open>
  The first argument of \<^verbatim>\<open>set\<close> and of \<^verbatim>\<open>bind\<close>: a string, or an object given by its own
  properties.
\<close>

datatype name_arg = Name string | Props obj

text \<open>\<^verbatim>\<open>Reactive.prototype.set\<close> (lines 165-182).\<close>

function set_prop :: "'s host \<Rightarrow> heap \<Rightarrow> 's reactive \<Rightarrow> name_arg \<Rightarrow> jsval \<Rightarrow> 's reactive" where
  "set_prop E h r (Props m) val =
     foldl (\<lambda>self name. set_prop E h self (Name name) (prop_get m name)) r (object_keys m)"
| "set_prop E h r (Name prop) val =
     (let r1 = r\<lparr>internal_set := True\<rparr>;
          (s, notes) = a_set (adapter_class r1) (adapter r1) prop val;
          r2 = notify E h (r1\<lparr>adapter := s\<rparr>) notes;
          r3 = emit E h r2 (''change '' @ prop) [val]
      in r3\<lparr>internal_set := False\<rparr>)"
  by pat_completeness auto
termination
  by (relation "measure (\<lambda>(E, h, r, p, v). case p of Props m \<Rightarrow> 1 | Name n \<Rightarrow> 0)") auto


section \<open>The tree binder\<close>

text \<open>\<^verbatim>\<open>inDomTree\<close> (lines 360-368), on the outcome of reading \<^verbatim>\<open>el.parentNode\<close>.\<close>

fun inDomTree :: "parent_access \<Rightarrow> error + bool" where
  "inDomTree HasParent = Inr True"
| "inDomTree NoParent = Inr False"
| "inDomTree (Throws msg) = (if msg = ''Invalid argument.'' then Inr False else Inl (Error msg))"

text \<open>
  How a visitor leaves a node: \<^verbatim>\<open>next()\<close> or \<^verbatim>\<open>next(false)\<close>, \<^verbatim>\<open>next(true)\<close>, or an
  exception.
\<close>

datatype control = Descend | SkipChildren | Abort error

fun childNodes :: "node \<Rightarrow> node list" where
  "childNodes (Element attrs cs) = cs"
| "childNodes (Text d pa) = []"
| "childNodes (Other cs) = cs"

lemma size_childNodes: "size_list size (childNodes n) \<le> size n"
  by (cases n) auto


text \<open>
  Modelled from the spec: \<^verbatim>\<open>lib/walk.js\<close> is not among the sources. Section 6:
  \<^verbatim>\<open>walk(root, visitor)\<close> calls \<^verbatim>\<open>visitor(node, next)\<close> on every node in pre-order;
  \<^verbatim>\<open>next(skip)\<close> with a truthy \<^verbatim>\<open>skip\<close> leaves out the children of the node, \<^verbatim>\<open>next()\<close>
  descends. The visitor is given the position of the node and returns what it
  instantiated there; an exception ends the traversal. The result is everything
  instantiated, in order, and the exception if there was one.
\<close>

function walk :: "(path \<Rightarrow> node \<Rightarrow> 'e list \<times> control) \<Rightarrow> path \<Rightarrow> node \<Rightarrow> 'e list \<times> error option"
  and walk_children ::
    "(path \<Rightarrow> node \<Rightarrow> 'e list \<times> control) \<Rightarrow> path \<Rightarrow> nat \<Rightarrow> node list \<Rightarrow> 'e list \<times> error option"
where
  "walk visitor p n =
     (case visitor p n of
        (evs, Abort e) \<Rightarrow> (evs, Some e)
      | (evs, SkipChildren) \<Rightarrow> (evs, None)
      | (evs, Descend) \<Rightarrow>
          (case walk_children visitor p 0 (childNodes n) of (evs', res) \<Rightarrow> (evs @ evs', res)))"
| "walk_children visitor p i [] = ([], None)"
| "walk_children visitor p i (c # cs) =
     (case walk visitor (p @ [i]) c of
        (evs, Some e) \<Rightarrow> (evs, Some e)
      | (evs, None) \<Rightarrow>
          (case walk_children visitor p (Suc i) cs of (evs', res) \<Rightarrow> (evs @ evs', res)))"
  by pat_completeness auto
termination
  by (relation "measure (\<lambda>x. case x of
         Inl (visitor, p, n) \<Rightarrow> 2 * size n + 2
       | Inr (visitor, p, i, cs) \<Rightarrow> 2 * size_list size cs + 1)")
     (auto simp: size_childNodes less_Suc_eq_le)

text \<open>
  What \<^verbatim>\<open>attrs[name]\<close> can be: an attribute of the element, or a member that \<^verbatim>\<open>attrs\<close>
  inherits. Both are truthy.
\<close>

datatype attr_slot = Attr string | Inherited

text \<open>
  Lines 228-233: \<^verbatim>\<open>attrs\<close> starts as a plain object \<^verbatim>\<open>{}\<close>, which has the inherited
  names, and gets the attributes of the element, by name. An attribute named
  \<^verbatim>\<open>__proto__\<close> is taken to be stored like any other.
\<close>

definition attr_index :: "string list \<Rightarrow> (string \<times> string) list \<Rightarrow> string \<Rightarrow> attr_slot option" where
  "attr_index inherited attributes =
     foldl (\<lambda>attrs (name, v). attrs(name \<mapsto> Attr v))
       (map_of (map (\<lambda>name. (name, Inherited)) inherited)) attributes"

text \<open>
  Lines 238-256: the loop body over \<^verbatim>\<open>Object.keys(bindings)\<close>, with the variable
  \<^verbatim>\<open>skip\<close> passed along. It yields the bindings instantiated and the final \<^verbatim>\<open>skip\<close>.
\<close>

fun named_bindings ::
  "(string \<Rightarrow> path \<Rightarrow> bool) \<Rightarrow> obj \<Rightarrow> (string \<Rightarrow> attr_slot option) \<Rightarrow> path \<Rightarrow> string list \<Rightarrow> bool
     \<Rightarrow> binding_event list \<times> bool" where
  "named_bindings skips bs attrs p [] skip = ([], skip)"
| "named_bindings skips bs attrs p (name # names) skip =
     (if attrs name = None \<or> skip then named_bindings skips bs attrs p names skip
      else
        let binding_fn = prop_get bs name in
        if \<not> truthy binding_fn then named_bindings skips bs attrs p names skip
        else
          let skip' = (if skips name p then True else skip) in
          (case named_bindings skips bs attrs p names skip' of
             (evs, s) \<Rightarrow> (Named name p # evs, s)))"

text \<open>Lines 264-270: an attribute binding for every attribute with an interpolation.\<close>

definition attr_bindings :: "(string \<Rightarrow> bool) \<Rightarrow> path \<Rightarrow> (string \<times> string) list \<Rightarrow> binding_event list" where
  "attr_bindings hasI p attributes =
     map (\<lambda>(name, v). AttrInterp p name) (filter (\<lambda>(name, v). hasI v) attributes)"

text \<open>The visitor of \<^verbatim>\<open>Reactive.prototype._bind\<close> (lines 223-283).\<close>

definition bind_visitor :: "'s host \<Rightarrow> obj \<Rightarrow> path \<Rightarrow> node \<Rightarrow> binding_event list \<times> control" where
  "bind_visitor E bs p n =
     (case n of
        Element attributes cs \<Rightarrow>
          (let (evs, skip) =
                 named_bindings (binding_skips E) bs (attr_index (object_prototype E) attributes) p (object_keys bs) False
           in if skip then (evs, SkipChildren)
              else (evs @ attr_bindings (hasInterpolation E) p attributes, Descend))
      | Text d pa \<Rightarrow>
          (case inDomTree pa of
             Inl e \<Rightarrow> ([], Abort e)
           | Inr attached \<Rightarrow>
               (if attached \<and> hasInterpolation E d then [TextInterp p] else [], Descend))
      | Other cs \<Rightarrow> ([], Descend))"

text \<open>
  \<^verbatim>\<open>Reactive.prototype._bind\<close> (lines 218-284): the bindings instantiated, in order, and
  the exception that ended the pass, if any. Without a root, \<^verbatim>\<open>el.nodeType\<close> fails.
\<close>

definition private_bind :: "'s host \<Rightarrow> heap \<Rightarrow> 's reactive \<Rightarrow> binding_event list \<times> error option" where
  "private_bind E h r =
     (case el r of
        None \<Rightarrow> ([], Some (TypeError ''nodeType of undefined''))
      | Some root \<Rightarrow> walk (bind_visitor E (obj_at h (bindings r))) [] root)"

datatype render_arg = Markup string | Dom node

text \<open>\<^verbatim>\<open>Reactive.prototype.render\<close> (lines 57-67).\<close>

definition render :: "'s host \<Rightarrow> heap \<Rightarrow> 's reactive \<Rightarrow> render_arg \<Rightarrow> 's reactive \<times> error option" where
  "render E h r arg =
     (let root = (case arg of Markup s \<Rightarrow> domify E s | Dom n \<Rightarrow> n);
          r1 = r\<lparr>el := Some root\<rparr>;
          (evs, err) = private_bind E h r1
      in (r1\<lparr>bound := bound r1 @ evs\<rparr>, err))"

section \<open>Registry and lifecycle\<close>

text \<open>
  \<^verbatim>\<open>Reactive.prototype.bind\<close> (lines 294-309). Only the registry changes, so the result
  is the new heap, or the error thrown.
\<close>

function bind :: "heap \<Rightarrow> 's reactive \<Rightarrow> name_arg \<Rightarrow> jsval \<Rightarrow> error + heap" where
  "bind h r (Props m) fn =
     foldl (\<lambda>res key. case res of Inl e \<Rightarrow> Inl e
                                | Inr h' \<Rightarrow> bind h' r (Name key) (prop_get m key))
           (Inr h) (object_keys m)"
| "bind h r (Name name) fn =
     (if el r = None
      then Inr (heap_put h (bindings r) (assign (obj_at h (bindings r)) name fn))
      else Inl (Error ''.bind() cannot be called after .render()''))"
  by pat_completeness auto
termination
  by (relation "measure (\<lambda>(h, r, n, fn). case n of Props m \<Rightarrow> 1 | Name s \<Rightarrow> 0)") auto

text \<open>
  \<^verbatim>\<open>Reactive.prototype.destroy\<close> (lines 319-330). Without a root, \<^verbatim>\<open>self.el.parentNode\<close>
  fails. Taking the root out of its parent happens outside the rendered tree.
\<close>

definition destroy :: "'s host \<Rightarrow> heap \<Rightarrow> 's reactive \<Rightarrow> error + 's reactive" where
  "destroy E h r =
     (case el r of
        None \<Rightarrow> Inl (TypeError ''parentNode of undefined'')
      | Some root \<Rightarrow>
          (let r1 = r\<lparr>adapter := a_unsubscribeAll (adapter_class r) (adapter r)\<rparr>;
               r2 = emit E h r1 ''destroyed'' [];
               r3 = removeAllListeners r2
           in Inr (r3\<lparr>el := None\<rparr>)))"






section \<open>An adapter with listener lists\<close>

text \<open>
  An adapter class that an embedder can pass as \<^verbatim>\<open>opt.adapter\<close>: it keeps the values it
  is given in a table and its listeners in a list; \<^verbatim>\<open>subscribe\<close> adds the function,
  \<^verbatim>\<open>unsubscribe\<close> takes that very function out, and a write calls the listeners of the
  property with the new value.
\<close>

type_synonym table_state = "obj \<times> (string \<times> callback) list"

definition listeners_of :: "table_state \<Rightarrow> string \<Rightarrow> callback list" where
  "listeners_of s prop = map snd (filter (\<lambda>(q, fn). q = prop) (snd s))"

definition table_adapter :: "table_state adapter_class" where
  "table_adapter =
     \<lparr>construct = (\<lambda>m. ([], [])),
      a_get = (\<lambda>s prop. prop_get (fst s) prop),
      a_set = (\<lambda>s prop v. ((assign (fst s) prop v, snd s),
                             map (\<lambda>fn. (fn, [v])) (listeners_of s prop))),
      a_subscribe = (\<lambda>s prop fn. (fst s, snd s @ [(prop, fn)])),
      a_unsubscribe = (\<lambda>s prop fn. (fst s, remove1 (prop, fn) (snd s))),
      a_unsubscribeAll = (\<lambda>s. (fst s, []))\<rparr>"

text \<open>
  An adapter class without change detection: it keeps the values it is given, and its
  \<^verbatim>\<open>subscribe\<close>, \<^verbatim>\<open>unsubscribe\<close> and \<^verbatim>\<open>unsubscribeAll\<close> do nothing.
\<close>

definition plain_adapter :: "table_state adapter_class" where
  "plain_adapter =
     \<lparr>construct = (\<lambda>m. ([], [])),
      a_get = (\<lambda>s prop. prop_get (fst s) prop),
      a_set = (\<lambda>s prop v. ((assign (fst s) prop v, snd s), [])),
      a_subscribe = (\<lambda>s prop fn. s),
      a_unsubscribe = (\<lambda>s prop fn. s),
      a_unsubscribeAll = (\<lambda>s. s)\<rparr>"

section \<open>A concrete instance\<close>

text \<open>
  A host, a heap and an instance on which the theorems below are evaluated. The
  instance is one made with \<^verbatim>\<open>opt.adapter\<close> set to the adapter with listener lists; its
  model is the object at address 0, its view delegate the one at 1, its registry the one
  at 2, holding the built-in directive \<^verbatim>\<open>each\<close>, which requests a skip.
\<close>

definition example_host :: "table_state host" where
  "example_host =
     \<lparr>call = (\<lambda>f this. case this of Obj a \<Rightarrow> Num (int (f + a)) | _ \<Rightarrow> Undefined),
      domify = (\<lambda>s. Element [] [Text s HasParent]),
      hasInterpolation = (\<lambda>s. CHR ''{'' \<in> set s),
      binding_skips = (\<lambda>name p. name = ''each''),
      object_prototype = [''constructor'', ''toString'', ''toLocaleString'', ''valueOf'',
                          ''hasOwnProperty'', ''isPrototypeOf'', ''propertyIsEnumerable'',
                          ''__proto__''],
      Adapter = plain_adapter,
      builtin_bindings = [(''each'', Fn 100)]\<rparr>"

definition example_heap :: heap where
  "example_heap =
     [[],
      [(''title'', Str ''hi''), (''shout'', Fn 7), (''zero'', Num 0), (''name'', Str ''view'')],
      [(''each'', Fn 100)]]"

definition example_reactive :: "table_state reactive" where
  "example_reactive =
     \<lparr>opt_adapter = Some table_adapter, model = Obj 0, adapter_class = table_adapter,
      adapter = ([(''name'', Str ''Ann''), (''user.name'', Str ''Al'')], []), view = 1, bindings = 2, el = None,
      internal_set = False, callbacks = (\<lambda>event. []), next_closure = 0,
      calls = [], bound = []\<rparr>"

text \<open>The instance that \<^verbatim>\<open>subview()\<close> makes of \<open>example_reactive\<close> on \<open>example_heap\<close>.\<close>

definition example_child :: "table_state reactive" where
  "example_child =
     \<lparr>opt_adapter = Some table_adapter, model = Obj 3, adapter_class = table_adapter,
      adapter = ([], []), view = 1, bindings = 2, el = None,
      internal_set = False, callbacks = (\<lambda>event. []), next_closure = 0,
      calls = [], bound = []\<rparr>"

definition example_tree :: node where
  "example_tree =
     Element []
       [Element [(''each'', ''items''), (''class'', ''{{c}}'')] [Text ''{{x}}'' HasParent],
        Element [(''title'', ''{{t}}'')] [Text ''b {{y}}'' HasParent]]"

definition example_rendered :: "table_state reactive" where
  "example_rendered = fst (render example_host example_heap example_reactive (Dom example_tree))"

section \<open>Positions in a pass\<close>

text \<open>
  What a pass instantiated at one position is what one visit instantiated there; and if
  that visit asked to skip, nothing was instantiated below that position.
\<close>

definition visit_at ::
  "(path \<Rightarrow> node \<Rightarrow> binding_event list \<times> control) \<Rightarrow> path \<Rightarrow> binding_event list \<Rightarrow> bool" where
  "visit_at f q evs \<longleftrightarrow>
     filter (\<lambda>e. path_of e = q) evs = [] \<or>
     (\<exists>n'. filter (\<lambda>e. path_of e = q) evs = fst (f q n') \<and>
           (snd (f q n') = SkipChildren \<longrightarrow> (\<forall>e \<in> set evs. \<not> strict_prefix q (path_of e))))"

section \<open>Value resolution: precedence\<close>

lemma example_lookups:
  "model example_reactive = Obj 0"
  "view example_reactive = Suc 0"
  "a_get (adapter_class example_reactive) (adapter example_reactive) ''name'' = Str ''Ann''"
  "a_get (adapter_class example_reactive) (adapter example_reactive) ''shout'' = Undefined"
  "a_get (adapter_class example_reactive) (adapter example_reactive) ''title'' = Undefined"
  "a_get (adapter_class example_reactive) (adapter example_reactive) ''zero'' = Undefined"
  "prop_get (obj_at example_heap (Suc 0)) ''shout'' = Fn 7"
  "prop_get (obj_at example_heap (Suc 0)) ''title'' = Str ''hi''"
  "prop_get (obj_at example_heap (Suc 0)) ''zero'' = Num 0"
  "call example_host 7 (Obj (Suc 0)) = Num 8"
  by (simp_all add: example_reactive_def example_host_def table_adapter_def prop_get_def
        obj_at_def example_heap_def)

lemma set_own_properties [simp]: "set (own_properties ob) = set ob"
  by (auto simp: own_properties_def)


lemma own_properties_plain:
  assumes "\<forall>k \<in> fst ` set ob. array_index k = None"
  shows "own_properties ob = ob"
proof -
  from assms have "filter (\<lambda>(k, v). array_index k \<noteq> None) ob = []"
    by (auto simp: filter_empty_conv)
  moreover from assms have "filter (\<lambda>(k, v). array_index k = None) ob = ob"
    by (auto simp: filter_id_conv)
  ultimately show ?thesis by (simp add: own_properties_def)
qed

lemma example_names [simp]:
  "array_index ''each'' = None" "array_index ''greet'' = None" "array_index ''late'' = None"
  "array_index ''lolz'' = None" "array_index ''a'' = None" "array_index ''b'' = None"
  "array_index ''1'' = Some 1"
  by (simp_all add: array_index_def digit_value_def)

text \<open>
  C1. \<^verbatim>\<open>get(prop)\<close> follows a fixed precedence: \<^verbatim>\<open>"this"\<close> yields the model object
  itself; otherwise a value of the adapter other than \<^verbatim>\<open>undefined\<close> is returned;
  otherwise a function found on the view delegate is called with the delegate as
  \<^verbatim>\<open>this\<close> and its result returned, a truthy entry is returned as it is, and anything
  else yields \<^verbatim>\<open>undefined\<close>.
\<close>

theorem get_precedence:
  "get E h r ''this'' = model r \<and>
   (prop \<noteq> ''this'' \<longrightarrow>
      (let modelVal = a_get (adapter_class r) (adapter r) prop;
           viewVal = prop_get (obj_at h (view r)) prop
       in (modelVal \<noteq> Undefined \<longrightarrow> get E h r prop = modelVal) \<and>
          (modelVal = Undefined \<longrightarrow>
             (\<forall>f. viewVal = Fn f \<longrightarrow> get E h r prop = call E f (Obj (view r))) \<and>
             (\<not> is_function viewVal \<and> truthy viewVal \<longrightarrow> get E h r prop = viewVal) \<and>
             (\<not> is_function viewVal \<and> \<not> truthy viewVal \<longrightarrow> get E h r prop = Undefined))))"
  by (cases "prop_get (obj_at h (view r)) prop") (simp_all add: get_def Let_def)

theorem get_precedence_witness:
  "get example_host example_heap example_reactive ''this'' = Obj 0 \<and>
   get example_host example_heap example_reactive ''name'' = Str ''Ann'' \<and>
   get example_host example_heap example_reactive ''shout'' = Num 8 \<and>
   get example_host example_heap example_reactive ''title'' = Str ''hi'' \<and>
   get example_host example_heap example_reactive ''zero'' = Undefined"
  using get_precedence [of example_host example_heap example_reactive "''name''"]
        get_precedence [of example_host example_heap example_reactive "''shout''"]
        get_precedence [of example_host example_heap example_reactive "''title''"]
        get_precedence [of example_host example_heap example_reactive "''zero''"]
  by (simp add: example_lookups Let_def)

section \<open>Writes\<close>

lemma get_cong_fields:
  "model r' = model r \<Longrightarrow> adapter_class r' = adapter_class r \<Longrightarrow> adapter r' = adapter r \<Longrightarrow>
   view r' = view r \<Longrightarrow> get E h r' prop = get E h r prop"
  by (simp add: get_def Let_def cong: jsval.case_cong)

lemma invoke_cong_fields:
  "model r' = model r \<Longrightarrow> adapter_class r' = adapter_class r \<Longrightarrow> adapter r' = adapter r \<Longrightarrow>
   view r' = view r \<Longrightarrow> internal_set r' = internal_set r \<Longrightarrow>
   invoke E h r' fn args = invoke E h r fn args"
  by (induction fn arbitrary: args) (simp_all add: get_cong_fields [of r' r])

lemma invoke_calls_update [simp]: "invoke E h (r\<lparr>calls := c\<rparr>) fn args = invoke E h r fn args"
  by (rule invoke_cong_fields) simp_all

text \<open>The effect of a single write, field by field.\<close>

lemma set_prop_Name:
  "set_prop E h r (Name prop) v =
     (let sn = a_set (adapter_class r) (adapter r) prop v;
          r1 = r\<lparr>internal_set := True, adapter := fst sn\<rparr>
      in r\<lparr>adapter := fst sn, internal_set := False,
           calls := calls r @ concat (map (\<lambda>(fn, args). invoke E h r1 fn args) (snd sn))
                      @ concat (map (\<lambda>fn. invoke E h r1 fn [v]) (callbacks r (''change '' @ prop)))\<rparr>)"
  by (simp add: Let_def split_def notify_def emit_def)

lemma foldl_keys_values:
  assumes "distinct (map fst m)" and "set ms \<subseteq> set m"
  shows "foldl (\<lambda>s name. f s name (prop_get m name)) r (map fst ms) =
         foldl (\<lambda>s (k, x). f s k x) r ms"
  using assms(2)
proof (induction ms arbitrary: r)
  case Nil
  show ?case by simp
next
  case (Cons kx ms)
  obtain k x where kx: "kx = (k, x)" by (cases kx)
  with Cons.prems have "(k, x) \<in> set m" by simp
  with assms(1) have "map_of m k = Some x" by simp
  then have "prop_get m k = x" by (simp add: prop_get_def)
  with Cons kx show ?case by simp
qed

lemma example_adapter [simp]:
  "adapter_class example_reactive = table_adapter"
  "adapter example_reactive = ([(''name'', Str ''Ann''), (''user.name'', Str ''Al'')], [])"
  "callbacks example_reactive = (\<lambda>event. [])"
  "calls example_reactive = []"
  "internal_set example_reactive = False"
  "next_closure example_reactive = 0"
  by (simp_all add: example_reactive_def)

lemma table_adapter_simps [simp]:
  "a_get table_adapter s prop = prop_get (fst s) prop"
  "a_set table_adapter s prop v =
     ((assign (fst s) prop v, snd s), map (\<lambda>fn. (fn, [v])) (listeners_of s prop))"
  "a_subscribe table_adapter s prop fn = (fst s, snd s @ [(prop, fn)])"
  "a_unsubscribe table_adapter s prop fn = (fst s, remove1 (prop, fn) (snd s))"
  "a_unsubscribeAll table_adapter s = (fst s, [])"
  by (simp_all add: table_adapter_def)

text \<open>
  C9 as stated fails: with an adapter that stores what it is given, \<^verbatim>\<open>set("this", 1)\<close>
  followed by \<^verbatim>\<open>get("this")\<close> yields the model object, and \<^verbatim>\<open>set("title", undefined)\<close>
  followed by \<^verbatim>\<open>get("title")\<close> yields the delegate's \<^verbatim>\<open>title\<close>.
\<close>

theorem set_get_roundtrip_counterexample:
  "a_get (adapter_class example_reactive)
     (fst (a_set (adapter_class example_reactive) (adapter example_reactive) ''this'' (Num 1)))
     ''this'' = Num 1 \<and>
   get example_host example_heap
     (set_prop example_host example_heap example_reactive (Name ''this'') (Num 1)) ''this''
     \<noteq> Num 1 \<and>
   a_get (adapter_class example_reactive)
     (fst (a_set (adapter_class example_reactive) (adapter example_reactive) ''title'' Undefined))
     ''title'' = Undefined \<and>
   get example_host example_heap
     (set_prop example_host example_heap example_reactive (Name ''title'') Undefined) ''title''
     \<noteq> Undefined"
  by (simp add: set_prop_Name Let_def get_def prop_get_def obj_at_def example_heap_def
        example_lookups del: set_prop.simps)

text \<open>
  C9, amended. For a property name other than \<^verbatim>\<open>"this"\<close>, if the adapter returns for it
  the value just written, and the value is not \<^verbatim>\<open>undefined\<close> (or the view delegate has
  neither a function nor a truthy value under that name), then \<^verbatim>\<open>set(p, v)\<close> followed by
  \<^verbatim>\<open>get(p)\<close> returns \<open>v\<close>.
\<close>

theorem set_get_roundtrip:
  assumes "prop \<noteq> ''this''"
    and "a_get (adapter_class r) (fst (a_set (adapter_class r) (adapter r) prop v)) prop = v"
    and "v \<noteq> Undefined \<or>
         (\<not> is_function (prop_get (obj_at h (view r)) prop) \<and>
          \<not> truthy (prop_get (obj_at h (view r)) prop))"
  shows "get E h (set_prop E h r (Name prop) v) prop = v"
proof -
  let ?r' = "set_prop E h r (Name prop) v"
  have fields: "adapter_class ?r' = adapter_class r" "view ?r' = view r"
    "adapter ?r' = fst (a_set (adapter_class r) (adapter r) prop v)"
    by (simp_all add: set_prop_Name Let_def del: set_prop.simps)
  show ?thesis
  proof (cases "v = Undefined")
    case False
    with assms(1,2) fields show ?thesis by (simp add: get_def del: set_prop.simps)
  next
    case True
    with assms(3) have nf: "\<not> is_function (prop_get (obj_at h (view r)) prop)"
      and nt: "\<not> truthy (prop_get (obj_at h (view r)) prop)" by simp_all
    from nf nt True assms(1,2) fields show ?thesis
      by (cases "prop_get (obj_at h (view r)) prop") (simp_all add: get_def del: set_prop.simps)
  qed
qed

theorem set_get_roundtrip_witness:
  "''name'' \<noteq> ''this'' \<and>
   a_get (adapter_class example_reactive)
     (fst (a_set (adapter_class example_reactive) (adapter example_reactive) ''name'' (Str ''Bo'')))
     ''name'' = Str ''Bo'' \<and>
   get example_host example_heap
     (set_prop example_host example_heap example_reactive (Name ''name'') (Str ''Bo'')) ''name''
     = Str ''Bo''"
  using set_get_roundtrip [of "''name''" example_reactive "Str ''Bo''" example_heap example_host]
  by (simp add: prop_get_def del: set_prop.simps)

section \<open>Subscriptions\<close>

declare sub.simps [simp del]


lemma sub_single:
  assumes "CHR ''.'' \<notin> set prop"
  shows "sub r prop fn =
           (on r (''change '' @ prop) fn)
             \<lparr>adapter := a_subscribe (adapter_class r) (adapter r) prop (Guarded (next_closure r) fn),
              next_closure := Suc (next_closure r)\<rparr>"
  using assms by (subst sub.simps) (simp add: split_dot_no_dot on_def)

















text \<open>
  C4 does not hold of the code. \<^verbatim>\<open>sub\<close> hands the adapter a closure around \<open>fn\<close>, and
  \<^verbatim>\<open>unsub\<close> asks the adapter to remove \<open>fn\<close> itself (line 119). With the adapter that
  keeps listener lists, after \<^verbatim>\<open>sub('name', f)\<close> and \<^verbatim>\<open>unsub('name', f)\<close> the emitter has
  no listener left, the adapter still holds the closure, and a change the adapter
  reports for \<^verbatim>\<open>name\<close> calls \<open>f\<close>.
\<close>

theorem unsub_leaves_adapter_listener:
  "callbacks (unsub (sub example_reactive ''name'' (Host 3)) ''name'' (Host 3)) ''change name'' = [] \<and>
   listeners_of (adapter (unsub (sub example_reactive ''name'' (Host 3)) ''name'' (Host 3))) ''name''
     = [Guarded 0 (Host 3)] \<and>
   calls (notify example_host example_heap
            (unsub (sub example_reactive ''name'' (Host 3)) ''name'' (Host 3))
            [(Guarded 0 (Host 3), [Str ''Zed''])])
     = [(3, [Str ''Zed''])]"
  by (simp add: sub_single unsub_def on_def off_def listeners_of_def notify_def Let_def)

section \<open>Writes: the object form\<close>

text \<open>
  C8 as stated fails: \<^verbatim>\<open>set\<close> goes through \<^verbatim>\<open>Object.keys(prop)\<close> (line 168), which lists
  array-index names before the others. With subscribers on \<^verbatim>\<open>b\<close> and \<^verbatim>\<open>1\<close>,
  \<^verbatim>\<open>set({b: 5, 1: 4})\<close> notifies the subscriber of \<^verbatim>\<open>1\<close> first, whereas \<^verbatim>\<open>set('b', 5)\<close>
  followed by \<^verbatim>\<open>set('1', 4)\<close>, the order of insertion, notifies the subscriber of \<^verbatim>\<open>b\<close>
  first.
\<close>

theorem set_object_form_counterexample:
  "distinct (map fst [(''b'', Num 5), (''1'', Num 4)]) \<and>
   calls (set_prop example_host example_heap
            (sub (sub example_reactive ''b'' (Host 6)) ''1'' (Host 7))
            (Props [(''b'', Num 5), (''1'', Num 4)]) Undefined)
     = [(7, [Num 4]), (6, [Num 5])] \<and>
   calls (set_prop example_host example_heap
            (set_prop example_host example_heap
               (sub (sub example_reactive ''b'' (Host 6)) ''1'' (Host 7))
               (Name ''b'') (Num 5))
            (Name ''1'') (Num 4))
     = [(6, [Num 5]), (7, [Num 4])]"
  unfolding set_prop.simps(1)
  by (simp add: object_keys_def own_properties_def prop_get_def set_prop_Name Let_def
        sub_single on_def listeners_of_def del: set_prop.simps)

text \<open>
  C8, amended. For an object \<open>m\<close> (its keys are distinct), \<^verbatim>\<open>set(m)\<close> is \<^verbatim>\<open>set(k, m[k])\<close> for
  each key in the order of \<^verbatim>\<open>Object.keys(m)\<close>, that is array-index names by ascending
  index, then the other names in the order of insertion: the resulting instance is the
  same, and with it the adapter's state after the writes and the callbacks invoked, in
  order. When no key is an array index, that is the order of insertion. The result of
  \<^verbatim>\<open>set\<close> is the instance in both forms.
\<close>

theorem set_object_form:
  assumes "distinct (map fst m)"
  shows "set_prop E h r (Props m) v
           = foldl (\<lambda>self (k, x). set_prop E h self (Name k) x) r (own_properties m) \<and>
         ((\<forall>k \<in> fst ` set m. array_index k = None) \<longrightarrow>
            set_prop E h r (Props m) v
              = foldl (\<lambda>self (k, x). set_prop E h self (Name k) x) r m)"
proof -
  have "set_prop E h r (Props m) v
          = foldl (\<lambda>self (k, x). set_prop E h self (Name k) x) r (own_properties m)"
    using foldl_keys_values [of m "own_properties m" "\<lambda>s k x. set_prop E h s (Name k) x" r] assms
    by (simp add: object_keys_def)
  then show ?thesis by (auto simp: own_properties_plain)
qed

theorem set_object_form_witness:
  "distinct (map fst [(''a'', Num 1), (''b'', Num 2)]) \<and>
   set_prop example_host example_heap example_reactive
       (Props [(''a'', Num 1), (''b'', Num 2)]) Undefined =
     set_prop example_host example_heap
       (set_prop example_host example_heap example_reactive (Name ''a'') (Num 1))
       (Name ''b'') (Num 2) \<and>
   distinct (map fst [(''b'', Num 5), (''1'', Num 4)]) \<and>
   set_prop example_host example_heap example_reactive
       (Props [(''b'', Num 5), (''1'', Num 4)]) Undefined =
     set_prop example_host example_heap
       (set_prop example_host example_heap example_reactive (Name ''1'') (Num 4))
       (Name ''b'') (Num 5)"
  using set_object_form [of "[(''a'', Num 1), (''b'', Num 2)]" example_host example_heap
          example_reactive Undefined]
        set_object_form [of "[(''b'', Num 5), (''1'', Num 4)]" example_host example_heap
          example_reactive Undefined]
  by (simp add: own_properties_def del: set_prop.simps)

section \<open>Registry and lifecycle: basic facts\<close>

lemma prop_get_assign: "prop_get (assign ob k v) k = v"
  by (induction ob k v rule: assign.induct) (simp_all add: prop_get_def)

lemma obj_at_heap_put: "a < length h \<Longrightarrow> obj_at (heap_put h a ob) a = ob"
  by (simp add: obj_at_def heap_put_def)

lemma length_heap_put [simp]: "length (heap_put h a ob) = length h"
  by (simp add: heap_put_def)

lemma render_el: "el (fst (render E h r arg)) \<noteq> None"
  by (simp add: render_def Let_def split: prod.splits)

lemma render_bindings [simp]: "bindings (fst (render E h r arg)) = bindings r"
  by (simp add: render_def Let_def split: prod.splits)

lemma example_fields [simp]:
  "el example_reactive = None"
  "bindings example_reactive = 2"
  "bound example_reactive = []"
  "opt_adapter example_reactive = Some table_adapter"
  by (simp_all add: example_reactive_def)

lemma example_host_fields [simp]:
  "binding_skips example_host = (\<lambda>name p. name = ''each'')"
  "hasInterpolation example_host = (\<lambda>s. CHR ''{'' \<in> set s)"
  "builtin_bindings example_host = [(''each'', Fn 100)]"
  "Adapter example_host = plain_adapter"
  "object_prototype example_host =
     [''constructor'', ''toString'', ''toLocaleString'', ''valueOf'', ''hasOwnProperty'',
      ''isPrototypeOf'', ''propertyIsEnumerable'', ''__proto__'']"
  by (simp_all add: example_host_def)


text \<open>
  C10. With a rendered root, \<^verbatim>\<open>bind\<close> throws; \<^verbatim>\<open>destroy\<close> then succeeds and removes the
  root, and \<^verbatim>\<open>bind\<close> on the destroyed instance no longer throws: it writes the handler
  into the registry the instance refers to.
\<close>

theorem bind_after_destroy:
  assumes "el r \<noteq> None"
  shows "bind h r (Name name) fn = Inl (Error ''.bind() cannot be called after .render()'') \<and>
         (\<exists>r'. destroy E h r = Inr r' \<and> el r' = None \<and> bindings r' = bindings r \<and>
               bind h r' (Name name) fn
                 = Inr (heap_put h (bindings r) (assign (obj_at h (bindings r)) name fn)) \<and>
               (bindings r < length h \<longrightarrow>
                  prop_get (obj_at (heap_put h (bindings r) (assign (obj_at h (bindings r)) name fn))
                              (bindings r)) name = fn))"
  using assms
  by (auto simp add: destroy_def Let_def emit_def removeAllListeners_def obj_at_heap_put
        prop_get_assign)

theorem bind_after_destroy_witness:
  "el (fst (render example_host example_heap example_reactive (Dom (Element [] [])))) \<noteq> None \<and>
   bind example_heap (fst (render example_host example_heap example_reactive (Dom (Element [] []))))
     (Name ''late'') (Fn 4)
     = Inl (Error ''.bind() cannot be called after .render()'') \<and>
   (\<exists>r'. destroy example_host example_heap
            (fst (render example_host example_heap example_reactive (Dom (Element [] [])))) = Inr r' \<and>
         el r' = None \<and>
         bind example_heap r' (Name ''late'') (Fn 4) =
           Inr [[],
                [(''title'', Str ''hi''), (''shout'', Fn 7), (''zero'', Num 0),
                 (''name'', Str ''view'')],
                [(''each'', Fn 100), (''late'', Fn 4)]])"
proof -
  let ?rr = "fst (render example_host example_heap example_reactive (Dom (Element [] [])))"
  have rendered: "el ?rr \<noteq> None" by (rule render_el)
  have heap: "heap_put example_heap 2 (assign (obj_at example_heap 2) ''late'' (Fn 4)) =
           [[],
            [(''title'', Str ''hi''), (''shout'', Fn 7), (''zero'', Num 0),
             (''name'', Str ''view'')],
            [(''each'', Fn 100), (''late'', Fn 4)]]"
    by (simp add: example_heap_def heap_put_def obj_at_def)
  from bind_after_destroy [OF rendered, of example_heap "''late''" "Fn 4" example_host] rendered
  show ?thesis by (auto simp add: heap simp del: bind.simps)
qed

section \<open>The tree binder: order and skipping\<close>

lemma named_bindings_skipping:
  "named_bindings skips bs attrs p names True = ([], True)"
  by (induction names) simp_all

lemma named_bindings_shape:
  "\<exists>ns. fst (named_bindings skips bs attrs p names False) = map (\<lambda>m. Named m p) ns \<and>
        subseq ns names \<and>
        (snd (named_bindings skips bs attrs p names False) \<longleftrightarrow> (\<exists>m \<in> set ns. skips m p)) \<and>
        (\<forall>m \<in> set ns. skips m p \<longrightarrow> m = last ns)"
proof (induction names)
  case Nil
  show ?case by simp
next
  case (Cons n names)
  then obtain ns where ns: "fst (named_bindings skips bs attrs p names False) = map (\<lambda>m. Named m p) ns"
    "subseq ns names"
    "snd (named_bindings skips bs attrs p names False) \<longleftrightarrow> (\<exists>m \<in> set ns. skips m p)"
    "\<forall>m \<in> set ns. skips m p \<longrightarrow> m = last ns" by blast
  consider (pass) "attrs n = None \<or> \<not> truthy (prop_get bs n)"
    | (skip) "attrs n \<noteq> None" "truthy (prop_get bs n)" "skips n p"
    | (go) "attrs n \<noteq> None" "truthy (prop_get bs n)" "\<not> skips n p" by blast
  then show ?case
  proof cases
    case pass
    then have "named_bindings skips bs attrs p (n # names) False
                 = named_bindings skips bs attrs p names False" by auto
    moreover from ns(2) have "subseq ns (n # names)" by (rule list_emb_Cons)
    ultimately show ?thesis using ns by (intro exI [of _ ns]) simp
  next
    case skip
    then have "named_bindings skips bs attrs p (n # names) False = ([Named n p], True)"
      by (auto simp add: named_bindings_skipping)
    then show ?thesis by (intro exI [of _ "[n]"]) (simp add: skip)
  next
    case go
    then have "named_bindings skips bs attrs p (n # names) False
                 = (Named n p # fst (named_bindings skips bs attrs p names False),
                    snd (named_bindings skips bs attrs p names False))"
      by (auto simp add: split_def)
    with ns go show ?thesis by (intro exI [of _ "n # ns"]) auto
  qed
qed

lemma bind_visitor_path:
  "e \<in> set (fst (bind_visitor E bs p n)) \<Longrightarrow> path_of e = p"
proof (cases n)
  case (Element attributes cs)
  obtain ns where "fst (named_bindings (binding_skips E) bs (attr_index (object_prototype E) attributes) p
                          (object_keys bs) False) = map (\<lambda>m. Named m p) ns"
    using named_bindings_shape [of "binding_skips E" bs "attr_index (object_prototype E) attributes" p
            "object_keys bs"]
    by blast
  then show "e \<in> set (fst (bind_visitor E bs p n)) \<Longrightarrow> path_of e = p"
    using Element
    by (auto simp: bind_visitor_def attr_bindings_def Let_def split_def split: if_splits)
next
  case (Text d pa)
  then show "e \<in> set (fst (bind_visitor E bs p n)) \<Longrightarrow> path_of e = p"
    by (auto simp: bind_visitor_def split: sum.splits if_splits)
next
  case (Other cs)
  then show "e \<in> set (fst (bind_visitor E bs p n)) \<Longrightarrow> path_of e = p"
    by (simp add: bind_visitor_def)
qed

lemma bind_visitor_shape:
  "\<exists>ns rest. fst (bind_visitor E bs p n) = map (\<lambda>m. Named m p) ns @ rest \<and>
     subseq ns (object_keys bs) \<and>
     (\<forall>e \<in> set rest. e = TextInterp p \<or> (\<exists>a. e = AttrInterp p a)) \<and>
     (\<forall>m \<in> set ns. binding_skips E m p \<longrightarrow>
        m = last ns \<and> rest = [] \<and> snd (bind_visitor E bs p n) = SkipChildren)"
proof (cases n)
  case (Element attributes cs)
  let ?nb = "named_bindings (binding_skips E) bs (attr_index (object_prototype E) attributes) p (object_keys bs) False"
  obtain ns where ns: "fst ?nb = map (\<lambda>m. Named m p) ns" "subseq ns (object_keys bs)"
    "snd ?nb \<longleftrightarrow> (\<exists>m \<in> set ns. binding_skips E m p)"
    "\<forall>m \<in> set ns. binding_skips E m p \<longrightarrow> m = last ns"
    using named_bindings_shape [of "binding_skips E" bs "attr_index (object_prototype E) attributes" p
            "object_keys bs"]
    by blast
  show ?thesis
  proof (cases "snd ?nb")
    case True
    with Element ns show ?thesis
      by (intro exI [of _ ns] exI [of _ "[]"]) (simp add: bind_visitor_def split_def)
  next
    case False
    with Element ns show ?thesis
      by (intro exI [of _ ns] exI [of _ "attr_bindings (hasInterpolation E) p attributes"])
         (auto simp: bind_visitor_def split_def attr_bindings_def)
  qed
next
  case (Text d pa)
  then show ?thesis
    by (intro exI [of _ "[]"] exI [of _ "fst (bind_visitor E bs p n)"])
       (auto simp: bind_visitor_def split: sum.splits if_splits)
next
  case (Other cs)
  then show ?thesis
    by (intro exI [of _ "[]"] exI [of _ "[]"]) (simp add: bind_visitor_def)
qed


declare walk.simps [simp del] walk_children.simps [simp del]

lemma walk_events:
  "fst (walk f p n) =
     fst (f p n) @ (if snd (f p n) = Descend then fst (walk_children f p 0 (childNodes n)) else [])"
  by (subst walk.simps) (simp split: prod.splits control.splits)

lemma walk_result:
  "snd (walk f p n) =
     (case snd (f p n) of
        Descend \<Rightarrow> snd (walk_children f p 0 (childNodes n))
      | SkipChildren \<Rightarrow> None
      | Abort e \<Rightarrow> Some e)"
  by (subst walk.simps) (simp split: prod.splits control.splits)

lemma walk_children_events:
  "fst (walk_children f p i []) = []"
  "fst (walk_children f p i (c # cs)) =
     fst (walk f (p @ [i]) c)
     @ (if snd (walk f (p @ [i]) c) = None then fst (walk_children f p (Suc i) cs) else [])"
  by (simp_all add: walk_children.simps split: prod.splits option.splits)

lemma walk_children_result:
  "snd (walk_children f p i []) = None"
  "snd (walk_children f p i (c # cs)) =
     (case snd (walk f (p @ [i]) c) of
        None \<Rightarrow> snd (walk_children f p (Suc i) cs)
      | Some e \<Rightarrow> Some e)"
  by (simp_all add: walk_children.simps split: prod.splits option.splits)

lemma below_not_strict_prefix: "prefix (p @ [j]) q \<Longrightarrow> \<not> strict_prefix q p"
  by (auto simp: prefix_def strict_prefix_def)

lemma siblings_incomparable:
  "prefix (p @ [i]) x \<Longrightarrow> prefix (p @ [j]) y \<Longrightarrow> i \<noteq> j \<Longrightarrow> \<not> prefix x y \<and> \<not> prefix y x"
  by (auto simp: prefix_def)

lemma walk_paths:
  assumes "\<forall>p n. \<forall>e \<in> set (fst (f p n)). path_of e = p"
  shows "\<forall>e \<in> set (fst (walk f p n)). prefix p (path_of e)"
    and "\<forall>e \<in> set (fst (walk_children f p i cs)). \<exists>j. i \<le> j \<and> prefix (p @ [j]) (path_of e)"
  using assms
proof (induction f p n and f p i cs rule: walk_walk_children.induct)
  case (1 visitor p n)
  show ?case
  proof (cases "snd (visitor p n) = Descend")
    case True
    from "1.IH" [OF prod.collapse True "1.prems"]
    have "\<forall>e \<in> set (fst (walk_children visitor p 0 (childNodes n))). prefix p (path_of e)"
      by (meson append_prefixD)
    with "1.prems" True show ?thesis by (auto simp: walk_events)
  next
    case False
    with "1.prems" show ?thesis by (auto simp: walk_events)
  qed
next
  case (2 visitor p i)
  show ?case by (simp add: walk_children_events)
next
  case (3 visitor p i c cs)
  have c: "\<forall>e \<in> set (fst (walk visitor (p @ [i]) c)). prefix (p @ [i]) (path_of e)"
    using "3.IH"(1) [OF "3.prems"] .
  show ?case
  proof (cases "snd (walk visitor (p @ [i]) c) = None")
    case True
    from "3.IH"(2) [OF prod.collapse True "3.prems"]
    have "\<forall>e \<in> set (fst (walk_children visitor p (Suc i) cs)).
            \<exists>j. i \<le> j \<and> prefix (p @ [j]) (path_of e)"
      by (meson Suc_leD)
    with c True show ?thesis by (auto simp: walk_children_events)
  next
    case False
    with c show ?thesis by (auto simp: walk_children_events)
  qed
qed


lemma visit_at_append:
  assumes xs: "visit_at f q xs" and ys: "visit_at f q ys"
    and sep: "\<forall>x \<in> set xs. \<forall>y \<in> set ys.
                \<not> prefix (path_of x) (path_of y) \<and> \<not> prefix (path_of y) (path_of x)"
  shows "visit_at f q (xs @ ys)"
proof -
  consider (none) "filter (\<lambda>e. path_of e = q) xs = []" "filter (\<lambda>e. path_of e = q) ys = []"
    | (left) "filter (\<lambda>e. path_of e = q) xs \<noteq> []"
    | (right) "filter (\<lambda>e. path_of e = q) ys \<noteq> []" by blast
  then show ?thesis
  proof cases
    case none
    then show ?thesis by (simp add: visit_at_def)
  next
    case left
    then obtain x0 where x0: "x0 \<in> set xs" "path_of x0 = q"
      by (auto simp: filter_empty_conv)
    with sep have far: "\<forall>y \<in> set ys. \<not> prefix q (path_of y)" by blast
    then have empty: "filter (\<lambda>e. path_of e = q) ys = []"
      by (auto simp: filter_empty_conv)
    from xs left obtain n' where n': "filter (\<lambda>e. path_of e = q) xs = fst (f q n')"
      "snd (f q n') = SkipChildren \<longrightarrow> (\<forall>e \<in> set xs. \<not> strict_prefix q (path_of e))"
      by (auto simp: visit_at_def)
    from n'(2) far have "snd (f q n') = SkipChildren \<longrightarrow>
        (\<forall>e \<in> set (xs @ ys). \<not> strict_prefix q (path_of e))"
      by (auto simp: strict_prefix_def)
    with n'(1) empty show ?thesis unfolding visit_at_def by (intro disjI2 exI [of _ n']) simp
  next
    case right
    then obtain y0 where y0: "y0 \<in> set ys" "path_of y0 = q"
      by (auto simp: filter_empty_conv)
    with sep have far: "\<forall>x \<in> set xs. \<not> prefix q (path_of x)" by blast
    then have empty: "filter (\<lambda>e. path_of e = q) xs = []"
      by (auto simp: filter_empty_conv)
    from ys right obtain n' where n': "filter (\<lambda>e. path_of e = q) ys = fst (f q n')"
      "snd (f q n') = SkipChildren \<longrightarrow> (\<forall>e \<in> set ys. \<not> strict_prefix q (path_of e))"
      by (auto simp: visit_at_def)
    from n'(2) far have "snd (f q n') = SkipChildren \<longrightarrow>
        (\<forall>e \<in> set (xs @ ys). \<not> strict_prefix q (path_of e))"
      by (auto simp: strict_prefix_def)
    with n'(1) empty show ?thesis unfolding visit_at_def by (intro disjI2 exI [of _ n']) simp
  qed
qed

lemma visit_at_Nil: "visit_at f q []"
  by (simp add: visit_at_def)

lemma walk_visit_at:
  assumes "\<forall>p n. \<forall>e \<in> set (fst (f p n)). path_of e = p"
  shows "visit_at f q (fst (walk f p n))"
    and "visit_at f q (fst (walk_children f p i cs))"
  using assms
proof (induction f p n and f p i cs rule: walk_walk_children.induct)
  case (1 visitor p n)
  let ?own = "fst (visitor p n)"
  let ?ch = "if snd (visitor p n) = Descend
             then fst (walk_children visitor p 0 (childNodes n)) else []"
  have own: "\<forall>e \<in> set ?own. path_of e = p" using "1.prems" by blast
  have ch: "\<forall>e \<in> set ?ch. \<exists>j. prefix (p @ [j]) (path_of e)"
    using walk_paths(2) [OF "1.prems", of p 0 "childNodes n"] by auto
  have ch_vis: "visit_at visitor q ?ch"
    using "1.IH" [OF prod.collapse _ "1.prems"] by (simp add: visit_at_Nil)
  show ?case
  proof (cases "q = p")
    case True
    from ch have "\<forall>e \<in> set ?ch. path_of e \<noteq> p" by (metis same_prefix_nil not_Cons_self2)
    with own have "filter (\<lambda>e. path_of e = p) (?own @ ?ch) = ?own"
      by (simp add: filter_empty_conv)
    moreover have "snd (visitor p n) = SkipChildren \<longrightarrow>
        (\<forall>e \<in> set (?own @ ?ch). \<not> strict_prefix p (path_of e))"
      using own by auto
    ultimately show ?thesis unfolding visit_at_def walk_events True
      by (intro disjI2 exI [of _ n]) simp
  next
    case False
    with own have none: "filter (\<lambda>e. path_of e = q) ?own = []"
      by (auto simp: filter_empty_conv)
    show ?thesis
    proof (cases "filter (\<lambda>e. path_of e = q) ?ch = []")
      case True
      with none show ?thesis unfolding visit_at_def walk_events by simp
    next
      case ne: False
      then obtain e0 where e0: "e0 \<in> set ?ch" "path_of e0 = q"
        by (auto simp: filter_empty_conv)
      with ch obtain j where j: "prefix (p @ [j]) q" by blast
      then have "\<not> strict_prefix q p" by (rule below_not_strict_prefix)
      with own have own_far: "\<forall>e \<in> set ?own. \<not> strict_prefix q (path_of e)" by simp
      from ch_vis ne obtain n' where n': "filter (\<lambda>e. path_of e = q) ?ch = fst (visitor q n')"
        "snd (visitor q n') = SkipChildren \<longrightarrow> (\<forall>e \<in> set ?ch. \<not> strict_prefix q (path_of e))"
        by (auto simp: visit_at_def)
      from n'(2) own_far have "snd (visitor q n') = SkipChildren \<longrightarrow>
          (\<forall>e \<in> set (?own @ ?ch). \<not> strict_prefix q (path_of e))" by auto
      with n'(1) none show ?thesis unfolding visit_at_def walk_events
        by (intro disjI2 exI [of _ n']) simp
    qed
  qed
next
  case (2 visitor p i)
  show ?case by (simp add: walk_children_events visit_at_Nil)
next
  case (3 visitor p i c cs)
  let ?ec = "fst (walk visitor (p @ [i]) c)"
  let ?er = "if snd (walk visitor (p @ [i]) c) = None
             then fst (walk_children visitor p (Suc i) cs) else []"
  have ec: "\<forall>e \<in> set ?ec. prefix (p @ [i]) (path_of e)"
    using walk_paths(1) [OF "3.prems"] by blast
  have er: "\<forall>e \<in> set ?er. \<exists>j. Suc i \<le> j \<and> prefix (p @ [j]) (path_of e)"
    using walk_paths(2) [OF "3.prems", of p "Suc i" cs] by auto
  have sep: "\<forall>x \<in> set ?ec. \<forall>y \<in> set ?er.
               \<not> prefix (path_of x) (path_of y) \<and> \<not> prefix (path_of y) (path_of x)"
  proof (intro ballI)
    fix x y assume "x \<in> set ?ec" "y \<in> set ?er"
    with ec er obtain j where xy: "prefix (p @ [i]) (path_of x)" "Suc i \<le> j"
      "prefix (p @ [j]) (path_of y)" by blast
    then have "i \<noteq> j" by simp
    with xy show "\<not> prefix (path_of x) (path_of y) \<and> \<not> prefix (path_of y) (path_of x)"
      by (intro siblings_incomparable)
  qed
  have "visit_at visitor q ?ec" using "3.IH"(1) [OF "3.prems"] .
  moreover have "visit_at visitor q ?er"
    using "3.IH"(2) [OF prod.collapse _ "3.prems"] by (simp add: visit_at_Nil)
  ultimately show ?case unfolding walk_children_events
    using sep by (rule visit_at_append)
qed


lemma prefix_trans_path: "prefix q p \<Longrightarrow> prefix p x \<Longrightarrow> prefix q x"
  by (auto simp: prefix_def)

text \<open>Two passes that differ only in what visits do inside one subtree agree outside it.\<close>

lemma walk_outside:
  assumes "\<forall>p n. \<forall>e \<in> set (fst (f p n)). path_of e = p"
    and "\<forall>p n. \<forall>e \<in> set (fst (g p n)). path_of e = p"
    and "\<forall>p n. \<not> prefix q p \<longrightarrow> f p n = g p n"
  shows "snd (walk f p n) = None \<Longrightarrow> snd (walk g p n) = None \<Longrightarrow>
         filter (\<lambda>e. \<not> prefix q (path_of e)) (fst (walk f p n)) =
         filter (\<lambda>e. \<not> prefix q (path_of e)) (fst (walk g p n))"
    and "snd (walk_children f p i cs) = None \<Longrightarrow> snd (walk_children g p i cs) = None \<Longrightarrow>
         filter (\<lambda>e. \<not> prefix q (path_of e)) (fst (walk_children f p i cs)) =
         filter (\<lambda>e. \<not> prefix q (path_of e)) (fst (walk_children g p i cs))"
  using assms
proof (induction f p n and f p i cs rule: walk_walk_children.induct)
  case (1 visitor p n)
  note vis = "1.prems"(3) and visg = "1.prems"(4) and agree = "1.prems"(5)
  show ?case
  proof (cases "prefix q p")
    case True
    have "\<forall>e \<in> set (fst (walk visitor p n)). prefix q (path_of e)"
      using walk_paths(1) [OF vis, of p n] True by (blast intro: prefix_trans_path)
    moreover have "\<forall>e \<in> set (fst (walk g p n)). prefix q (path_of e)"
      using walk_paths(1) [OF visg, of p n] True by (blast intro: prefix_trans_path)
    ultimately show ?thesis by (simp add: filter_empty_conv)
  next
    case False
    with agree have same: "visitor p n = g p n" by simp
    show ?thesis
    proof (cases "snd (visitor p n) = Descend")
      case True
      with "1.prems"(1,2) same
      have "snd (walk_children visitor p 0 (childNodes n)) = None"
        "snd (walk_children g p 0 (childNodes n)) = None"
        by (simp_all add: walk_result)
      from "1.IH" [OF prod.collapse True this vis visg agree] same True
      show ?thesis by (simp add: walk_events)
    next
      case False
      with same show ?thesis by (simp add: walk_events)
    qed
  qed
next
  case (2 visitor p i)
  show ?case by (simp add: walk_children_events)
next
  case (3 visitor p i c cs)
  note vis = "3.prems"(3) and visg = "3.prems"(4) and agree = "3.prems"(5)
  from "3.prems"(1) have f: "snd (walk visitor (p @ [i]) c) = None"
    "snd (walk_children visitor p (Suc i) cs) = None"
    by (auto simp: walk_children_result split: option.splits)
  from "3.prems"(2) have g: "snd (walk g (p @ [i]) c) = None"
    "snd (walk_children g p (Suc i) cs) = None"
    by (auto simp: walk_children_result split: option.splits)
  from "3.IH"(1) [OF f(1) g(1) vis visg agree]
       "3.IH"(2) [OF prod.collapse f(1) f(2) g(2) vis visg agree] f(1) g(1)
  show ?case by (simp add: walk_children_events)
qed

lemma named_bindings_cong:
  "\<forall>m. skips m p = skips' m p \<Longrightarrow>
   named_bindings skips bs attrs p names skip = named_bindings skips' bs attrs p names skip"
  by (induction names arbitrary: skip) (simp_all add: Let_def)

lemma bind_visitor_cong:
  assumes "\<forall>m. skips' m p = binding_skips E m p"
  shows "bind_visitor (E\<lparr>binding_skips := skips'\<rparr>) bs p n = bind_visitor E bs p n"
proof -
  have "named_bindings skips' bs attrs p names False
          = named_bindings (binding_skips E) bs attrs p names False" for attrs names
    using assms by (intro named_bindings_cong) simp
  then show ?thesis
    by (cases n) (simp_all add: bind_visitor_def split: prod.splits sum.splits)
qed

lemma render_el_Dom: "el (fst (render E h r (Dom n))) = Some n"
  by (simp add: render_def Let_def split: prod.splits)

lemma example_rendered_fields:
  "el example_rendered = Some example_tree" "bindings example_rendered = 2"
  by (simp_all add: example_rendered_def render_el_Dom)

lemma example_registry: "obj_at example_heap 2 = [(''each'', Fn 100)]"
  by (simp add: obj_at_def example_heap_def)

lemma example_pass:
  "private_bind example_host example_heap example_rendered =
     ([Named ''each'' [0], AttrInterp [1] ''title'', TextInterp [1, 0]], None)"
  by (simp add: private_bind_def example_rendered_fields example_registry example_tree_def
        walk.simps walk_children.simps bind_visitor_def object_keys_def own_properties_def
        attr_index_def
        attr_bindings_def prop_get_def Let_def)

lemma example_pass_without_skip:
  "private_bind (example_host\<lparr>binding_skips := (\<lambda>name p. name = ''each'' \<and> \<not> prefix [0] p)\<rparr>)
     example_heap example_rendered =
     ([Named ''each'' [0], AttrInterp [0] ''class'', TextInterp [0, 0],
       AttrInterp [1] ''title'', TextInterp [1, 0]], None)"
  by (simp add: private_bind_def example_rendered_fields example_registry example_tree_def
        walk.simps walk_children.simps bind_visitor_def object_keys_def own_properties_def
        attr_index_def
        attr_bindings_def prop_get_def Let_def)

text \<open>
  C2. Let a pass of \<^verbatim>\<open>_bind\<close> run on a rendered root. At every position \<open>q\<close> of the
  tree, what the pass instantiated there is a run of directives, in the order of the
  registry's keys, followed by interpolation bindings only. If one of these directives
  requests a skip, it is the last directive instantiated at \<open>q\<close>, no interpolation
  binding is instantiated at \<open>q\<close>, and nothing at all is instantiated below \<open>q\<close>.
  Outside the subtree at \<open>q\<close> the pass is not affected by what directives request
  inside it: two passes (neither ended by an exception) whose directives request
  skips alike outside that subtree instantiate the same bindings outside it.
\<close>

theorem skip_leaves_out_subtree:
  assumes "el r = Some root"
  shows "(\<forall>q. \<exists>ns rest.
            filter (\<lambda>e. path_of e = q) (fst (private_bind E h r)) = map (\<lambda>n. Named n q) ns @ rest \<and>
            subseq ns (object_keys (obj_at h (bindings r))) \<and>
            (\<forall>e \<in> set rest. e = TextInterp q \<or> (\<exists>a. e = AttrInterp q a)) \<and>
            (\<forall>n \<in> set ns. binding_skips E n q \<longrightarrow>
               n = last ns \<and> rest = [] \<and>
               (\<forall>e \<in> set (fst (private_bind E h r)). \<not> strict_prefix q (path_of e)))) \<and>
         (\<forall>q skips'.
            (\<forall>n p. \<not> prefix q p \<longrightarrow> skips' n p = binding_skips E n p) \<and>
            snd (private_bind E h r) = None \<and>
            snd (private_bind (E\<lparr>binding_skips := skips'\<rparr>) h r) = None \<longrightarrow>
            filter (\<lambda>e. \<not> prefix q (path_of e)) (fst (private_bind (E\<lparr>binding_skips := skips'\<rparr>) h r)) =
            filter (\<lambda>e. \<not> prefix q (path_of e)) (fst (private_bind E h r)))"
proof (intro conjI allI impI)
  fix q
  let ?bs = "obj_at h (bindings r)"
  let ?evs = "fst (private_bind E h r)"
  have evs: "?evs = fst (walk (bind_visitor E ?bs) [] root)"
    using assms by (simp add: private_bind_def)
  have vis: "\<forall>p n. \<forall>e \<in> set (fst (bind_visitor E ?bs p n)). path_of e = p"
    using bind_visitor_path by blast
  from walk_visit_at(1) [OF vis, of q "[]" root]
  have at: "visit_at (bind_visitor E ?bs) q ?evs" by (simp add: evs)
  show "\<exists>ns rest.
            filter (\<lambda>e. path_of e = q) ?evs = map (\<lambda>n. Named n q) ns @ rest \<and>
            subseq ns (object_keys ?bs) \<and>
            (\<forall>e \<in> set rest. e = TextInterp q \<or> (\<exists>a. e = AttrInterp q a)) \<and>
            (\<forall>n \<in> set ns. binding_skips E n q \<longrightarrow>
               n = last ns \<and> rest = [] \<and> (\<forall>e \<in> set ?evs. \<not> strict_prefix q (path_of e)))"
  proof (cases "filter (\<lambda>e. path_of e = q) ?evs = []")
    case True
    then show ?thesis by (intro exI [of _ "[]"]) simp
  next
    case False
    with at obtain n' where n': "filter (\<lambda>e. path_of e = q) ?evs = fst (bind_visitor E ?bs q n')"
      "snd (bind_visitor E ?bs q n') = SkipChildren \<longrightarrow>
         (\<forall>e \<in> set ?evs. \<not> strict_prefix q (path_of e))"
      by (auto simp: visit_at_def)
    from bind_visitor_shape [of E ?bs q n'] obtain ns rest where shape:
      "fst (bind_visitor E ?bs q n') = map (\<lambda>m. Named m q) ns @ rest"
      "subseq ns (object_keys ?bs)"
      "\<forall>e \<in> set rest. e = TextInterp q \<or> (\<exists>a. e = AttrInterp q a)"
      "\<forall>m \<in> set ns. binding_skips E m q \<longrightarrow>
         m = last ns \<and> rest = [] \<and> snd (bind_visitor E ?bs q n') = SkipChildren"
      by blast
    with n' show ?thesis by (intro exI [of _ ns] exI [of _ rest]) auto
  qed
next
  fix q skips'
  let ?bs = "obj_at h (bindings r)"
  let ?E' = "E\<lparr>binding_skips := skips'\<rparr>"
  assume pre: "(\<forall>n p. \<not> prefix q p \<longrightarrow> skips' n p = binding_skips E n p) \<and>
            snd (private_bind E h r) = None \<and> snd (private_bind ?E' h r) = None"
  have vis: "\<forall>p n. \<forall>e \<in> set (fst (bind_visitor E ?bs p n)). path_of e = p"
    using bind_visitor_path by blast
  have vis': "\<forall>p n. \<forall>e \<in> set (fst (bind_visitor ?E' ?bs p n)). path_of e = p"
    using bind_visitor_path by blast
  have agree: "\<forall>p n. \<not> prefix q p \<longrightarrow> bind_visitor ?E' ?bs p n = bind_visitor E ?bs p n"
    using pre by (auto intro: bind_visitor_cong)
  from pre assms have ok: "snd (walk (bind_visitor ?E' ?bs) [] root) = None"
    "snd (walk (bind_visitor E ?bs) [] root) = None"
    by (simp_all add: private_bind_def)
  from walk_outside(1) [OF vis' vis agree ok]
  show "filter (\<lambda>e. \<not> prefix q (path_of e)) (fst (private_bind ?E' h r)) =
        filter (\<lambda>e. \<not> prefix q (path_of e)) (fst (private_bind E h r))"
    using assms by (simp add: private_bind_def)
qed


theorem skip_leaves_out_subtree_witness:
  "el example_rendered = Some example_tree \<and>
   fst (private_bind example_host example_heap example_rendered) =
     [Named ''each'' [0], AttrInterp [1] ''title'', TextInterp [1, 0]] \<and>
   binding_skips example_host ''each'' [0] \<and>
   filter (\<lambda>e. path_of e = [0]) (fst (private_bind example_host example_heap example_rendered)) =
     [Named ''each'' [0]] \<and>
   fst (private_bind (example_host\<lparr>binding_skips := (\<lambda>name p. name = ''each'' \<and> \<not> prefix [0] p)\<rparr>)
          example_heap example_rendered) =
     [Named ''each'' [0], AttrInterp [0] ''class'', TextInterp [0, 0],
      AttrInterp [1] ''title'', TextInterp [1, 0]] \<and>
   filter (\<lambda>e. \<not> prefix [0] (path_of e))
     (fst (private_bind (example_host\<lparr>binding_skips := (\<lambda>name p. name = ''each'' \<and> \<not> prefix [0] p)\<rparr>)
            example_heap example_rendered)) =
   filter (\<lambda>e. \<not> prefix [0] (path_of e))
     (fst (private_bind example_host example_heap example_rendered))"
proof -
  let ?skips' = "\<lambda>name p. name = ''each'' \<and> \<not> prefix [0::nat] p"
  have root: "el example_rendered = Some example_tree" by (rule example_rendered_fields)
  have agree: "\<forall>n p. \<not> prefix [0] p \<longrightarrow> ?skips' n p = binding_skips example_host n p"
    by simp
  have ok: "snd (private_bind example_host example_heap example_rendered) = None"
    "snd (private_bind (example_host\<lparr>binding_skips := ?skips'\<rparr>) example_heap example_rendered)
       = None"
    by (simp_all add: example_pass example_pass_without_skip)
  note outside = skip_leaves_out_subtree [OF root, of example_host example_heap, THEN conjunct2,
      rule_format, of "[0]" ?skips']
  from agree ok have "filter (\<lambda>e. \<not> prefix [0] (path_of e))
          (fst (private_bind (example_host\<lparr>binding_skips := ?skips'\<rparr>) example_heap example_rendered)) =
        filter (\<lambda>e. \<not> prefix [0] (path_of e))
          (fst (private_bind example_host example_heap example_rendered))"
    by (intro outside) blast
  with root show ?thesis by (simp add: example_pass example_pass_without_skip)
qed

section \<open>Registry: when a directive is honoured\<close>


















lemma example_child_fields [simp]:
  "bindings example_child = 2" "bound example_child = []" "model example_child = Obj 3"
  "adapter example_child = ([], [])" "el example_child = None"
  by (simp_all add: example_child_def)












end
